theory Spec2Isabelle
  imports Complex_Main
begin

section \<open>Note registry\<close>

text \<open>
  The model follows the revision of \<open>PianoKeyboard.js\<close> that has the synthesizer
  (\<open>useSynth\<close>) and \<open>getBlackKeyOffset\<close>; the table \<open>blackKeyPositions\<close> of the revision
  before it is included in the layout section.

  The registry \<open>KEYBOARD_NOTE_MAP\<close>: twelve entries, one per semitone of octave 4, each
  with the note name, the display label, the bound keyboard character and the colour of
  the key (the field \<open>type\<close> of the source, a string that is either "white" or "black").
\<close>

datatype key_type = white | black

record note_def =
  "note" :: string
  label :: string
  key :: string
  type :: key_type

definition KEYBOARD_NOTE_MAP :: "note_def list" where
  "KEYBOARD_NOTE_MAP =
    [\<lparr>note = ''C4'',  label = ''C'',  key = ''Q'', type = white\<rparr>,
     \<lparr>note = ''C#4'', label = ''C#'', key = ''2'', type = black\<rparr>,
     \<lparr>note = ''D4'',  label = ''D'',  key = ''W'', type = white\<rparr>,
     \<lparr>note = ''D#4'', label = ''D#'', key = ''3'', type = black\<rparr>,
     \<lparr>note = ''E4'',  label = ''E'',  key = ''E'', type = white\<rparr>,
     \<lparr>note = ''F4'',  label = ''F'',  key = ''R'', type = white\<rparr>,
     \<lparr>note = ''F#4'', label = ''F#'', key = ''5'', type = black\<rparr>,
     \<lparr>note = ''G4'',  label = ''G'',  key = ''T'', type = white\<rparr>,
     \<lparr>note = ''G#4'', label = ''G#'', key = ''6'', type = black\<rparr>,
     \<lparr>note = ''A4'',  label = ''A'',  key = ''Y'', type = white\<rparr>,
     \<lparr>note = ''A#4'', label = ''A#'', key = ''7'', type = black\<rparr>,
     \<lparr>note = ''B4'',  label = ''B'',  key = ''U'', type = white\<rparr>]"

subsection \<open>Note names, MIDI numbers and frequencies\<close>

text \<open>
  \<open>Array.prototype.indexOf\<close> and \<open>findIndex\<close>: the position of the first hit, or \<open>-1\<close>.
\<close>

fun findIndex :: "('a \<Rightarrow> bool) \<Rightarrow> 'a list \<Rightarrow> int" where
  "findIndex P [] = -1"
| "findIndex P (x # xs) =
     (if P x then 0 else (let r = findIndex P xs in if r = -1 then -1 else r + 1))"

definition indexOf :: "'a list \<Rightarrow> 'a \<Rightarrow> int" where
  "indexOf xs x = findIndex (\<lambda>y. y = x) xs"

definition isPitchLetter :: "char \<Rightarrow> bool" where
  "isPitchLetter c = (c \<in> set ''ABCDEFG'')"

definition isDigit :: "char \<Rightarrow> bool" where
  "isDigit c = (c \<in> set ''0123456789'')"

text \<open>
  \<open>note.match(/^([A-G]#?)(\d)$/)\<close>: the whole string is one letter from A to G, an
  optional sharp sign and one decimal digit. The result is the two captured groups, or
  \<open>None\<close> for the \<open>null\<close> of a failed match.
\<close>

fun match_note :: "string \<Rightarrow> (string \<times> string) option" where
  "match_note [l, d] =
     (if isPitchLetter l \<and> isDigit d then Some ([l], [d]) else None)"
| "match_note [l, h, d] =
     (if isPitchLetter l \<and> h = CHR ''#'' \<and> isDigit d then Some ([l, h], [d]) else None)"
| "match_note s = None"

text \<open>\<open>parseInt(octaveS, 10)\<close> on the captured digit.\<close>

definition parseInt :: "string \<Rightarrow> int" where
  "parseInt s = foldl (\<lambda>acc c. 10 * acc + indexOf ''0123456789'' c) 0 s"

definition "notes" :: "string list" where
  "notes = [''C'', ''C#'', ''D'', ''D#'', ''E'', ''F'', ''F#'', ''G'', ''G#'', ''A'', ''A#'', ''B'']"

definition noteNameToMidi :: "string \<Rightarrow> int" where
  "noteNameToMidi nt =
     (case match_note nt of
        None \<Rightarrow> 60
      | Some (n, octaveS) \<Rightarrow>
          (let noteIdx = indexOf notes n;
               octave = parseInt octaveS
           in 12 * (octave + 1) + noteIdx))"

text \<open>
  \<open>noteToFrequency\<close>: \<open>440 * Math.pow(2, (midi - 69) / 12)\<close>. The arithmetic is taken over
  the reals; the rounding of IEEE doubles is outside this model.
\<close>

definition noteToFrequency :: "string \<Rightarrow> real" where
  "noteToFrequency nt =
     (let midi = noteNameToMidi nt in 440 * 2 powr ((real_of_int midi - 69) / 12))"

text \<open>
  The pitch-name pattern \<open>[A-G](#)?<digit>\<close> as a set of strings, stated independently
  of the matcher.
\<close>

definition pitch_name_pattern :: "string set" where
  "pitch_name_pattern =
     {[l] @ h @ [d] | l h d.
        l \<in> set ''ABCDEFG'' \<and> (h = [] \<or> h = ''#'') \<and> d \<in> set ''0123456789''}"

subsection \<open>Key lookup\<close>

definition startsWith :: "string \<Rightarrow> string \<Rightarrow> bool" where
  "startsWith s pre = (take (length pre) s = pre)"

definition codeToKeyChar :: "string \<Rightarrow> string" where
  "codeToKeyChar code =
     (if startsWith code ''Key'' then drop 3 code
      else if startsWith code ''Digit'' then drop 5 code
      else '''')"

text \<open>
  \<open>String.prototype.toUpperCase\<close> on the ASCII range, which is where the values of
  \<open>KeyboardEvent.code\<close> and the bound keys live.
\<close>

definition upperChar :: "char \<Rightarrow> char" where
  "upperChar c =
     (let n = (of_char c :: nat) in if 97 \<le> n \<and> n \<le> 122 then char_of (n - 32) else c)"

definition toUpperCase :: "string \<Rightarrow> string" where
  "toUpperCase s = map upperChar s"

definition getNoteIndexFromKey :: "string \<Rightarrow> int" where
  "getNoteIndexFromKey k =
     (if k = [] then -1
      else (let upper = toUpperCase k
            in findIndex (\<lambda>item. toUpperCase (key item) = upper) KEYBOARD_NOTE_MAP))"

text \<open>
  \<open>KEYBOARD_NOTE_MAP[idx]\<close>: the entry, or \<open>None\<close> for the \<open>undefined\<close> of an index outside
  the table. Reading \<open>.note\<close> of \<open>undefined\<close> throws a \<open>TypeError\<close>; the component
  attaches its pointer handlers with registry indices only, so this branch is never taken
  by the rendered keys.
\<close>

datatype error = TypeError

definition entryAt :: "int \<Rightarrow> note_def option" where
  "entryAt idx =
     (if 0 \<le> idx \<and> idx < int (length KEYBOARD_NOTE_MAP)
      then Some (KEYBOARD_NOTE_MAP ! nat idx) else None)"

section \<open>Envelope synthesizer\<close>

text \<open>
  \<open>useSynth\<close> keeps two references: the lazily created audio context and the table
  \<open>oscillators.current\<close> from note names to oscillator nodes. Oscillator nodes are objects
  with identity (\<open>onended\<close> compares with \<open>===\<close>), so the model has a store \<open>heap\<close> of every
  node created so far and the table holds positions in it. A node records what \<open>play\<close> sets
  on it: the waveform, the frequency, the gain ramp as (value, seconds after start), the
  scheduled stop, and the note its \<open>onended\<close> closure captured. \<open>playing\<close> says that the
  node has been started and has neither been stopped nor ended.

  The table is a plain object indexed by registry note names; property names that every
  object inherits are not note names and are outside the model.
\<close>

record oscillator =
  osc_type :: string
  frequency :: real
  gain_ramp :: "(real \<times> real) list"
  stop_after :: real
  onended_note :: string
  playing :: bool

record synth_state =
  audioCtx :: bool
  oscillators :: "string \<rightharpoonup> nat"
  heap :: "oscillator list"

definition getCtx :: "synth_state \<Rightarrow> synth_state" where
  "getCtx sy = (if \<not> audioCtx sy then sy\<lparr>audioCtx := True\<rparr> else sy)"

definition play :: "synth_state \<Rightarrow> string \<Rightarrow> synth_state" where
  "play sy0 nt =
     (let sy = getCtx sy0;
          freq = noteToFrequency nt
      in if oscillators sy nt \<noteq> None then sy
         else (let osc = length (heap sy);
                   node = \<lparr>osc_type = ''triangle'', frequency = freq,
                           gain_ramp = [(0, 0), (0.23, 0.01), (0.18, 0.18), (0, 0.55)],
                           stop_after = 0.62, onended_note = nt, playing = True\<rparr>
               in sy\<lparr>heap := heap sy @ [node],
                     oscillators := (oscillators sy)(nt \<mapsto> osc)\<rparr>))"

text \<open>
  \<open>osc.stop()\<close> inside \<open>try {} catch(e) {}\<close>: the node stops sounding, and an exception of
  the audio backend is swallowed.
\<close>

definition silence :: "oscillator list \<Rightarrow> nat \<Rightarrow> oscillator list" where
  "silence h osc = (if osc < length h then h[osc := (h ! osc)\<lparr>playing := False\<rparr>] else h)"

definition stop :: "synth_state \<Rightarrow> string \<Rightarrow> synth_state" where
  "stop sy nt =
     (case oscillators sy nt of
        None \<Rightarrow> sy
      | Some osc \<Rightarrow> sy\<lparr>heap := silence (heap sy) osc,
                        oscillators := (oscillators sy)(nt := None)\<rparr>)"

text \<open>
  The \<open>ended\<close> event of a node, delivered by the audio backend after the scheduled stop
  or after \<open>stop()\<close>: the node is silent, and its \<open>onended\<close> callback removes the table
  entry of its note if that entry is still this very node.
\<close>

definition onended :: "synth_state \<Rightarrow> nat \<Rightarrow> synth_state" where
  "onended sy osc =
     (if osc < length (heap sy)
      then (let nt = onended_note (heap sy ! osc);
                sy' = sy\<lparr>heap := silence (heap sy) osc\<rparr>
            in if oscillators sy nt = Some osc
               then sy'\<lparr>oscillators := (oscillators sy)(nt := None)\<rparr>
               else sy')
      else sy)"

section \<open>Input reconciler\<close>

text \<open>
  The component state: \<open>activeKeys\<close> (a set of registry indices), the synthesizer, and a
  log of the callback invocations made so far. The props say whether \<open>onNoteDown\<close> and
  \<open>onNoteUp\<close> were supplied (\<open>if (onNoteDown) onNoteDown(...)\<close>). State updates are taken
  to be visible to the next event: React re-renders and re-registers the handlers between
  two input events.
\<close>

datatype callback = NoteDown string int | NoteUp string int

record props =
  onNoteDown :: bool
  onNoteUp :: bool

record piano =
  activeKeys :: "int set"
  synth :: synth_state
  calls :: "callback list"

definition init :: piano where
  "init = \<lparr>activeKeys = {},
           synth = \<lparr>audioCtx = False, oscillators = Map.empty, heap = []\<rparr>,
           calls = []\<rparr>"

definition handleKeyDown :: "props \<Rightarrow> piano \<Rightarrow> string \<Rightarrow> piano" where
  "handleKeyDown p s code =
     (let ch = codeToKeyChar code;
          idx = getNoteIndexFromKey ch
      in if idx \<noteq> -1 \<and> idx \<notin> activeKeys s
         then (let nt = note (KEYBOARD_NOTE_MAP ! nat idx)
               in s\<lparr>activeKeys := insert idx (activeKeys s),
                    synth := play (synth s) nt,
                    calls := (if onNoteDown p then calls s @ [NoteDown nt idx] else calls s)\<rparr>)
         else s)"

definition handleKeyUp :: "props \<Rightarrow> piano \<Rightarrow> string \<Rightarrow> piano" where
  "handleKeyUp p s code =
     (let ch = codeToKeyChar code;
          idx = getNoteIndexFromKey ch
      in if idx \<noteq> -1
         then (let nt = note (KEYBOARD_NOTE_MAP ! nat idx)
               in s\<lparr>activeKeys := activeKeys s - {idx},
                    synth := stop (synth s) nt,
                    calls := (if onNoteUp p then calls s @ [NoteUp nt idx] else calls s)\<rparr>)
         else s)"

definition handlePointerDown :: "props \<Rightarrow> piano \<Rightarrow> int \<Rightarrow> error + piano" where
  "handlePointerDown p s idx =
     (case entryAt idx of
        None \<Rightarrow> Inl TypeError
      | Some e \<Rightarrow>
          Inr (s\<lparr>activeKeys := insert idx (activeKeys s),
                 synth := play (synth s) (note e),
                 calls := (if onNoteDown p then calls s @ [NoteDown (note e) idx]
                           else calls s)\<rparr>))"

definition handlePointerUp :: "props \<Rightarrow> piano \<Rightarrow> int \<Rightarrow> error + piano" where
  "handlePointerUp p s idx =
     (case entryAt idx of
        None \<Rightarrow> Inl TypeError
      | Some e \<Rightarrow>
          Inr (s\<lparr>activeKeys := activeKeys s - {idx},
                 synth := stop (synth s) (note e),
                 calls := (if onNoteUp p then calls s @ [NoteUp (note e) idx]
                           else calls s)\<rparr>))"

definition handleGlobalPointerUp :: "piano \<Rightarrow> piano" where
  "handleGlobalPointerUp s =
     s\<lparr>activeKeys := {},
       synth := foldl stop (synth s) (map note KEYBOARD_NOTE_MAP)\<rparr>"

text \<open>
  The events the component receives, and the state after a sequence of them from the
  initial state. Mouse-up, mouse-leave and touch-end on a key all call \<open>handlePointerUp\<close>;
  mouse-down and touch-start call \<open>handlePointerDown\<close>; \<open>Ended\<close> is the \<open>ended\<close> event of
  an oscillator node. A handler that throws ends the run.
\<close>

datatype event =
    KeyDown string
  | KeyUp string
  | PointerDown int
  | PointerUp int
  | GlobalPointerUp
  | Ended nat

fun dispatch :: "props \<Rightarrow> piano \<Rightarrow> event \<Rightarrow> error + piano" where
  "dispatch p s (KeyDown code) = Inr (handleKeyDown p s code)"
| "dispatch p s (KeyUp code) = Inr (handleKeyUp p s code)"
| "dispatch p s (PointerDown idx) = handlePointerDown p s idx"
| "dispatch p s (PointerUp idx) = handlePointerUp p s idx"
| "dispatch p s GlobalPointerUp = Inr (handleGlobalPointerUp s)"
| "dispatch p s (Ended osc) = Inr (s\<lparr>synth := onended (synth s) osc\<rparr>)"

fun run :: "props \<Rightarrow> piano \<Rightarrow> event list \<Rightarrow> error + piano" where
  "run p s [] = Inr s"
| "run p s (ev # evs) =
     (case dispatch p s ev of Inl e \<Rightarrow> Inl e | Inr s' \<Rightarrow> run p s' evs)"

section \<open>Key layout\<close>

text \<open>
  The white keys with their registry index, in registry order; the table from each black
  key to the white lane on its left; and \<open>getBlackKeyOffset\<close>, the percentage the
  component puts into the black key's \<open>left\<close> style (\<open>None\<close> for the \<open>null\<close> of a note
  without a table entry).
\<close>

definition whiteKeys :: "(nat \<times> note_def) list" where
  "whiteKeys = filter (\<lambda>(idx, k). type k = white) (enumerate 0 KEYBOARD_NOTE_MAP)"

definition blackKeyToWhiteLeftIdx :: "(string \<times> nat) list" where
  "blackKeyToWhiteLeftIdx =
     [(''C#4'', 0), (''D#4'', 1), (''F#4'', 3), (''G#4'', 4), (''A#4'', 5)]"

definition keyWidthPercent :: real where
  "keyWidthPercent = 100 / real (length whiteKeys)"

definition getBlackKeyOffset :: "string \<Rightarrow> real option" where
  "getBlackKeyOffset nt =
     (case map_of blackKeyToWhiteLeftIdx nt of
        None \<Rightarrow> None
      | Some leftWhiteIdx \<Rightarrow>
          (let halfWhite = keyWidthPercent / 2
           in Some ((real leftWhiteIdx + 1) * keyWidthPercent - halfWhite)))"

text \<open>
  The table \<open>blackKeyPositions\<close> of the second revision of the component: the same
  percentages, written out per key with the two white lanes the key lies between.
\<close>

definition blackKeyPositions :: "(string \<times> (nat \<times> nat) \<times> real) list" where
  "blackKeyPositions =
     [(''C#4'', (0, 1), (1 / 7) * 100 - 100 / 14),
      (''D#4'', (1, 2), (2 / 7) * 100 - 100 / 14),
      (''F#4'', (3, 4), (4 / 7) * 100 - 100 / 14),
      (''G#4'', (4, 5), (5 / 7) * 100 - 100 / 14),
      (''A#4'', (5, 6), (6 / 7) * 100 - 100 / 14)]"

text \<open>
  The rendered geometry, in percent of the width of the key row. The style sheet gives
  every white key the width \<open>calc(100% / 7)\<close> in a flex row, so the \<open>i\<close>-th white key is the
  lane from \<open>i * keyWidthPercent\<close> to \<open>(i + 1) * keyWidthPercent\<close> (the border-overlap
  margin of 1.5px aside). A black key is absolutely
  positioned with \<open>left: calc(offset% - var(--black-key-width)/2)\<close> and
  \<open>width: var(--black-key-width)\<close>; \<open>bw\<close> is that width in the same unit.
\<close>

definition whiteLane :: "nat \<Rightarrow> real \<times> real" where
  "whiteLane i = (real i * keyWidthPercent, (real i + 1) * keyWidthPercent)"

definition blackKeyLeft :: "real \<Rightarrow> string \<Rightarrow> real option" where
  "blackKeyLeft bw nt = map_option (\<lambda>offsetPercent. offsetPercent - bw / 2) (getBlackKeyOffset nt)"

definition blackKeyCentre :: "real \<Rightarrow> string \<Rightarrow> real option" where
  "blackKeyCentre bw nt = map_option (\<lambda>left. left + bw / 2) (blackKeyLeft bw nt)"

section \<open>Invariants and sample states\<close>

text \<open>
  What holds of the synthesizer after any sequence of events: a table entry points to a
  node of the store whose captured note is the entry's key; a node that is still sounding
  is the table entry of its note; and a node exists only once the audio context does.
\<close>

definition synth_inv :: "synth_state \<Rightarrow> bool" where
  "synth_inv sy \<longleftrightarrow>
     (\<forall>nt osc. oscillators sy nt = Some osc \<longrightarrow>
        osc < length (heap sy) \<and> onended_note (heap sy ! osc) = nt) \<and>
     (\<forall>osc. osc < length (heap sy) \<and> playing (heap sy ! osc) \<longrightarrow>
        oscillators sy (onended_note (heap sy ! osc)) = Some osc) \<and>
     (heap sy \<noteq> [] \<longrightarrow> audioCtx sy)"

text \<open>
  The notes of the keys in \<open>activeKeys\<close>, and the invariant of the component: every note
  with a voice in the table belongs to a key that is held.
\<close>

definition held_notes :: "int set \<Rightarrow> string set" where
  "held_notes A = {nt. \<exists>idx e. idx \<in> A \<and> entryAt idx = Some e \<and> note e = nt}"

definition piano_inv :: "piano \<Rightarrow> bool" where
  "piano_inv s \<longleftrightarrow>
     synth_inv (synth s) \<and> dom (oscillators (synth s)) \<subseteq> held_notes (activeKeys s)"

text \<open>
  \<open>App.js\<close> passes both callbacks. \<open>held_Q\<close> is the state after pressing Q once;
  \<open>expired_Q\<close> is that state after the voice of C4 ran to its scheduled end while Q is
  still held.
\<close>

definition app_props :: props where
  "app_props = \<lparr>onNoteDown = True, onNoteUp = True\<rparr>"

definition held_Q :: piano where
  "held_Q = handleKeyDown app_props init ''KeyQ''"

definition expired_Q :: piano where
  "expired_Q = held_Q\<lparr>synth := onended (synth held_Q) 0\<rparr>"

text \<open>\<open>held_Q_Dsharp\<close>: Q is held on the keyboard and the D# key is pressed with the pointer.\<close>

definition held_Q_Dsharp :: piano where
  "held_Q_Dsharp = (case handlePointerDown app_props held_Q 3 of Inr s \<Rightarrow> s | Inl e \<Rightarrow> held_Q)"

section \<open>Properties of the synthesizer and the reconciler\<close>

subsection \<open>The synthesizer invariant is kept by play, stop and the ended event\<close>

lemma synth_invI:
  assumes "\<And>nt osc. oscillators sy nt = Some osc \<Longrightarrow> osc < length (heap sy)"
    and "\<And>nt osc. oscillators sy nt = Some osc \<Longrightarrow> onended_note (heap sy ! osc) = nt"
    and "\<And>osc. osc < length (heap sy) \<Longrightarrow> playing (heap sy ! osc) \<Longrightarrow>
           oscillators sy (onended_note (heap sy ! osc)) = Some osc"
    and "heap sy \<noteq> [] \<Longrightarrow> audioCtx sy"
  shows "synth_inv sy"
  using assms unfolding synth_inv_def by blast

lemma synth_inv_bound: "synth_inv sy \<Longrightarrow> oscillators sy nt = Some osc \<Longrightarrow> osc < length (heap sy)"
  unfolding synth_inv_def by blast

lemma synth_inv_note: "synth_inv sy \<Longrightarrow> oscillators sy nt = Some osc \<Longrightarrow> onended_note (heap sy ! osc) = nt"
  unfolding synth_inv_def by blast

lemma synth_inv_playing: "synth_inv sy \<Longrightarrow> osc < length (heap sy) \<Longrightarrow> playing (heap sy ! osc) \<Longrightarrow>
   oscillators sy (onended_note (heap sy ! osc)) = Some osc"
  unfolding synth_inv_def by blast

lemma synth_inv_ctx: "synth_inv sy \<Longrightarrow> heap sy \<noteq> [] \<Longrightarrow> audioCtx sy"
  unfolding synth_inv_def by blast

lemma play_existing: "oscillators sy nt \<noteq> None \<Longrightarrow> play sy nt = getCtx sy"
  by (simp add: play_def getCtx_def Let_def)

lemma play_fresh: "oscillators sy nt = None \<Longrightarrow>
  play sy nt = sy\<lparr>audioCtx := True,
     heap := heap sy @ [\<lparr>osc_type = ''triangle'', frequency = noteToFrequency nt,
                           gain_ramp = [(0, 0), (0.23, 0.01), (0.18, 0.18), (0, 0.55)],
                           stop_after = 0.62, onended_note = nt, playing = True\<rparr>],
     oscillators := (oscillators sy)(nt \<mapsto> length (heap sy))\<rparr>"
  by (simp add: play_def getCtx_def Let_def)

lemma synth_inv_getCtx: "synth_inv sy \<Longrightarrow> synth_inv (getCtx sy)"
  by (simp add: synth_inv_def getCtx_def)

lemma synth_inv_play: 
  assumes "synth_inv sy" shows "synth_inv (play sy nt)"
proof (cases "oscillators sy nt")
  case (Some a)
  then show ?thesis using assms by (simp add: play_existing synth_inv_getCtx)
next
  case None
  show ?thesis
  proof (rule synth_invI)
    fix n osc assume a: "oscillators (play sy nt) n = Some osc"
    show "osc < length (heap (play sy nt))"
      using a synth_inv_bound[OF assms, of n osc] by (auto simp: play_fresh[OF None] split: if_splits)
    show "onended_note (heap (play sy nt) ! osc) = n"
      using a synth_inv_bound[OF assms, of n osc] synth_inv_note[OF assms, of n osc]
      by (auto simp: play_fresh[OF None] nth_append split: if_splits)
  next
    fix osc assume "osc < length (heap (play sy nt))" "playing (heap (play sy nt) ! osc)"
    then show "oscillators (play sy nt) (onended_note (heap (play sy nt) ! osc)) = Some osc"
      using synth_inv_playing[OF assms, of osc] None
      by (auto simp: play_fresh[OF None] nth_append less_Suc_eq split: if_splits)
  next
    show "audioCtx (play sy nt)" by (simp add: play_fresh[OF None])
  qed
qed


lemma length_silence: "length (silence h osc) = length h"
  by (simp add: silence_def)

lemma nth_silence_note: "i < length h \<Longrightarrow> onended_note (silence h osc ! i) = onended_note (h ! i)"
  by (simp add: silence_def nth_list_update)

lemma nth_silence_playing:
  "i < length h \<Longrightarrow> playing (silence h osc ! i) \<longleftrightarrow> playing (h ! i) \<and> i \<noteq> osc"
  by (auto simp: silence_def nth_list_update)

lemma stop_absent: "oscillators sy nt = None \<Longrightarrow> stop sy nt = sy"
  by (simp add: stop_def)

lemma stop_present: "oscillators sy nt = Some osc \<Longrightarrow>
  stop sy nt = sy\<lparr>heap := silence (heap sy) osc, oscillators := (oscillators sy)(nt := None)\<rparr>"
  by (simp add: stop_def)

lemma synth_inv_stop:
  assumes "synth_inv sy" shows "synth_inv (stop sy nt)"
proof (cases "oscillators sy nt")
  case None
  then show ?thesis using assms by (simp add: stop_absent)
next
  case (Some o1)
  show ?thesis
  proof (rule synth_invI)
    fix n osc assume a: "oscillators (stop sy nt) n = Some osc"
    then have b: "oscillators sy n = Some osc" "n \<noteq> nt"
      by (auto simp: stop_present[OF Some] split: if_splits)
    show "osc < length (heap (stop sy nt))"
      using synth_inv_bound[OF assms b(1)] by (simp add: stop_present[OF Some] length_silence)
    show "onended_note (heap (stop sy nt) ! osc) = n"
      using synth_inv_bound[OF assms b(1)] synth_inv_note[OF assms b(1)]
      by (simp add: stop_present[OF Some] nth_silence_note)
  next
    fix osc assume "osc < length (heap (stop sy nt))" "playing (heap (stop sy nt) ! osc)"
    then have c: "osc < length (heap sy)" "playing (heap sy ! osc)" "osc \<noteq> o1"
      by (simp_all add: stop_present[OF Some] length_silence nth_silence_playing)
    from synth_inv_playing[OF assms c(1,2)] Some c(3)
    have "onended_note (heap sy ! osc) \<noteq> nt" by auto
    with synth_inv_playing[OF assms c(1,2)] c(1)
    show "oscillators (stop sy nt) (onended_note (heap (stop sy nt) ! osc)) = Some osc"
      by (simp add: stop_present[OF Some] nth_silence_note)
  next
    assume "heap (stop sy nt) \<noteq> []"
    then have "heap sy \<noteq> []" by (auto simp: stop_present[OF Some] silence_def split: if_splits)
    then show "audioCtx (stop sy nt)"
      using synth_inv_ctx[OF assms] by (simp add: stop_present[OF Some])
  qed
qed

lemma onended_cases:
  "onended sy osc = sy \<or>
   (osc < length (heap sy) \<and> oscillators sy (onended_note (heap sy ! osc)) = Some osc \<and>
      onended sy osc = stop sy (onended_note (heap sy ! osc))) \<or>
   (osc < length (heap sy) \<and> oscillators sy (onended_note (heap sy ! osc)) \<noteq> Some osc \<and>
      onended sy osc = sy\<lparr>heap := silence (heap sy) osc\<rparr>)"
  by (simp add: onended_def Let_def stop_def)

lemma synth_inv_silence_only:
  assumes "synth_inv sy" "osc < length (heap sy)"
    "oscillators sy (onended_note (heap sy ! osc)) \<noteq> Some osc"
  shows "synth_inv (sy\<lparr>heap := silence (heap sy) osc\<rparr>)"
proof (rule synth_invI)
  fix n o1 assume "oscillators (sy\<lparr>heap := silence (heap sy) osc\<rparr>) n = Some o1"
  then have b: "oscillators sy n = Some o1" by simp
  show "o1 < length (heap (sy\<lparr>heap := silence (heap sy) osc\<rparr>))"
    using synth_inv_bound[OF assms(1) b] by (simp add: length_silence)
  show "onended_note (heap (sy\<lparr>heap := silence (heap sy) osc\<rparr>) ! o1) = n"
    using synth_inv_bound[OF assms(1) b] synth_inv_note[OF assms(1) b]
    by (simp add: nth_silence_note)
next
  fix o1 assume "o1 < length (heap (sy\<lparr>heap := silence (heap sy) osc\<rparr>))"
    "playing (heap (sy\<lparr>heap := silence (heap sy) osc\<rparr>) ! o1)"
  then have c: "o1 < length (heap sy)" "playing (heap sy ! o1)"
    by (simp_all add: length_silence nth_silence_playing)
  then show "oscillators (sy\<lparr>heap := silence (heap sy) osc\<rparr>)
       (onended_note (heap (sy\<lparr>heap := silence (heap sy) osc\<rparr>) ! o1)) = Some o1"
    using synth_inv_playing[OF assms(1) c] by (simp add: nth_silence_note)
next
  assume "heap (sy\<lparr>heap := silence (heap sy) osc\<rparr>) \<noteq> []"
  then have "heap sy \<noteq> []" by (auto simp: silence_def split: if_splits)
  then show "audioCtx (sy\<lparr>heap := silence (heap sy) osc\<rparr>)"
    using synth_inv_ctx[OF assms(1)] by simp
qed

lemma synth_inv_onended:
  assumes "synth_inv sy" shows "synth_inv (onended sy osc)"
  using onended_cases[of sy osc] assms synth_inv_stop synth_inv_silence_only
  by (metis (no_types))

lemma dom_play: "dom (oscillators (play sy nt)) = insert nt (dom (oscillators sy))"
  by (cases "oscillators sy nt") (auto simp: play_existing play_fresh getCtx_def)

lemma dom_stop: "dom (oscillators (stop sy nt)) = dom (oscillators sy) - {nt}"
  by (cases "oscillators sy nt") (auto simp: stop_absent stop_present)

lemma dom_onended: "dom (oscillators (onended sy osc)) \<subseteq> dom (oscillators sy)"
proof -
  have "dom (oscillators (stop sy n)) \<subseteq> dom (oscillators sy)" for n
    by (simp add: dom_stop)
  moreover have "dom (oscillators (sy\<lparr>heap := h\<rparr>)) \<subseteq> dom (oscillators sy)" for h
    by simp
  ultimately show ?thesis
    using onended_cases[of sy osc] by (metis (no_types) order_refl)
qed

subsection \<open>The component invariant is kept by every handler\<close>

lemma findIndex_range: "findIndex P xs = -1 \<or> (0 \<le> findIndex P xs \<and> findIndex P xs < int (length xs))"
  by (induction xs) (auto simp: Let_def)

lemma getNoteIndexFromKey_range:
  "getNoteIndexFromKey k = -1 \<or> (0 \<le> getNoteIndexFromKey k \<and> getNoteIndexFromKey k < int (length KEYBOARD_NOTE_MAP))"
  unfolding getNoteIndexFromKey_def Let_def using findIndex_range by auto

lemma getNoteIndexFromKey_entry:
  "getNoteIndexFromKey k \<noteq> -1 \<Longrightarrow> entryAt (getNoteIndexFromKey k) = Some (KEYBOARD_NOTE_MAP ! nat (getNoteIndexFromKey k))"
  using getNoteIndexFromKey_range[of k] by (auto simp: entryAt_def)

lemma held_notes_insert:
  "entryAt idx = Some e \<Longrightarrow> held_notes (insert idx A) = insert (note e) (held_notes A)"
  by (auto simp: held_notes_def)

lemma held_notes_remove:
  "entryAt idx = Some e \<Longrightarrow> held_notes A - {note e} \<subseteq> held_notes (A - {idx})"
  by (auto simp: held_notes_def)

lemma held_notes_empty: "held_notes {} = {}"
  by (simp add: held_notes_def)

lemma piano_inv_init: "piano_inv init"
  by (simp add: piano_inv_def init_def synth_inv_def held_notes_def)

lemma piano_inv_down:
  assumes "piano_inv s" "entryAt idx = Some e"
  shows "piano_inv (s\<lparr>activeKeys := insert idx (activeKeys s), synth := play (synth s) (note e), calls := c\<rparr>)"
  using assms by (auto simp: piano_inv_def synth_inv_play dom_play held_notes_insert)

lemma piano_inv_up:
  assumes "piano_inv s" "entryAt idx = Some e"
  shows "piano_inv (s\<lparr>activeKeys := activeKeys s - {idx}, synth := stop (synth s) (note e), calls := c\<rparr>)"
  using assms held_notes_remove[OF assms(2), of "activeKeys s"]
  by (auto simp: piano_inv_def synth_inv_stop dom_stop)

lemma piano_inv_handleKeyDown: "piano_inv s \<Longrightarrow> piano_inv (handleKeyDown p s code)"
  using getNoteIndexFromKey_entry[of "codeToKeyChar code"]
  by (simp add: handleKeyDown_def Let_def piano_inv_down)

lemma piano_inv_handleKeyUp: "piano_inv s \<Longrightarrow> piano_inv (handleKeyUp p s code)"
  using getNoteIndexFromKey_entry[of "codeToKeyChar code"]
  by (simp add: handleKeyUp_def Let_def piano_inv_up)

lemma piano_inv_handlePointerDown:
  "piano_inv s \<Longrightarrow> handlePointerDown p s idx = Inr s' \<Longrightarrow> piano_inv s'"
  by (auto simp: handlePointerDown_def piano_inv_down split: option.splits)

lemma piano_inv_handlePointerUp:
  "piano_inv s \<Longrightarrow> handlePointerUp p s idx = Inr s' \<Longrightarrow> piano_inv s'"
  by (auto simp: handlePointerUp_def piano_inv_up split: option.splits)

lemma synth_inv_sweep: "synth_inv sy \<Longrightarrow> synth_inv (foldl stop sy ns)"
  by (induction ns arbitrary: sy) (simp_all add: synth_inv_stop)

lemma dom_sweep: "dom (oscillators (foldl stop sy ns)) = dom (oscillators sy) - set ns"
  by (induction ns arbitrary: sy) (auto simp: dom_stop)

lemma held_notes_registry: "held_notes A \<subseteq> set (map note KEYBOARD_NOTE_MAP)"
  by (auto simp: held_notes_def entryAt_def split: if_splits)

lemma piano_inv_handleGlobalPointerUp: "piano_inv s \<Longrightarrow> piano_inv (handleGlobalPointerUp s)"
  using held_notes_registry[of "activeKeys s"]
  by (auto simp: piano_inv_def handleGlobalPointerUp_def synth_inv_sweep dom_sweep simp del: set_map)

lemma piano_inv_onended: "piano_inv s \<Longrightarrow> piano_inv (s\<lparr>synth := onended (synth s) osc\<rparr>)"
  using dom_onended[of "synth s" osc] by (auto simp: piano_inv_def synth_inv_onended)

lemma piano_inv_dispatch: "piano_inv s \<Longrightarrow> dispatch p s ev = Inr s' \<Longrightarrow> piano_inv s'"
  by (cases ev)
     (auto simp: piano_inv_handleKeyDown piano_inv_handleKeyUp piano_inv_handleGlobalPointerUp
        piano_inv_onended
        dest: piano_inv_handlePointerDown piano_inv_handlePointerUp)

lemma piano_inv_run: "piano_inv s \<Longrightarrow> run p s evs = Inr s' \<Longrightarrow> piano_inv s'"
proof (induction evs arbitrary: s)
  case Nil
  then show ?case by simp
next
  case (Cons ev evs)
  then show ?case by (auto split: sum.splits dest: piano_inv_dispatch)
qed

lemma reachable_inv: "run p init evs = Inr s \<Longrightarrow> piano_inv s"
  using piano_inv_run[OF piano_inv_init] .

subsection \<open>Key-down on the keyboard\<close>

lemma notes_distinct: "distinct (map note KEYBOARD_NOTE_MAP)"
  by (simp add: KEYBOARD_NOTE_MAP_def)

lemma note_inj:
  assumes "entryAt i = Some e" "entryAt j = Some e'" "note e = note e'"
  shows "i = j"
proof -
  from assms have i: "0 \<le> i" "nat i < length KEYBOARD_NOTE_MAP" "e = KEYBOARD_NOTE_MAP ! nat i"
    and j: "0 \<le> j" "nat j < length KEYBOARD_NOTE_MAP" "e' = KEYBOARD_NOTE_MAP ! nat j"
    by (auto simp: entryAt_def split: if_splits)
  then have "map note KEYBOARD_NOTE_MAP ! nat i = map note KEYBOARD_NOTE_MAP ! nat j"
    using assms(3) by simp
  moreover have "(map note KEYBOARD_NOTE_MAP ! nat i = map note KEYBOARD_NOTE_MAP ! nat j) = (nat i = nat j)"
    by (rule nth_eq_iff_index_eq[OF notes_distinct]) (simp_all add: i(2) j(2))
  ultimately have "nat i = nat j" by blast
  then show ?thesis using i(1) j(1) by simp
qed

lemma not_held_no_voice:
  assumes "piano_inv s" "entryAt idx = Some e" "idx \<notin> activeKeys s"
  shows "oscillators (synth s) (note e) = None"
proof (rule ccontr)
  assume "oscillators (synth s) (note e) \<noteq> None"
  then have "note e \<in> held_notes (activeKeys s)"
    using assms(1) by (auto simp: piano_inv_def)
  then obtain j e' where "j \<in> activeKeys s" "entryAt j = Some e'" "note e' = note e"
    by (auto simp: held_notes_def)
  then show False using note_inj[OF assms(2), of j e'] assms(3) by simp
qed

lemma handleKeyDown_held:
  "getNoteIndexFromKey (codeToKeyChar code) \<in> activeKeys s \<Longrightarrow> handleKeyDown p s code = s"
  by (simp add: handleKeyDown_def Let_def)

lemma handleKeyDown_unmapped:
  "getNoteIndexFromKey (codeToKeyChar code) = -1 \<Longrightarrow> handleKeyDown p s code = s"
  by (simp add: handleKeyDown_def Let_def)

lemma handleKeyDown_fresh:
  "idx = getNoteIndexFromKey (codeToKeyChar code) \<Longrightarrow> idx \<noteq> -1 \<Longrightarrow> idx \<notin> activeKeys s \<Longrightarrow>
   handleKeyDown p s code =
     s\<lparr>activeKeys := insert idx (activeKeys s),
       synth := play (synth s) (note (KEYBOARD_NOTE_MAP ! nat idx)),
       calls := (if onNoteDown p then calls s @ [NoteDown (note (KEYBOARD_NOTE_MAP ! nat idx)) idx] else calls s)\<rparr>"
  by (simp add: handleKeyDown_def Let_def)

lemma handleKeyDown_twice:
  "handleKeyDown p (handleKeyDown p s code) code = handleKeyDown p s code"
proof (cases "getNoteIndexFromKey (codeToKeyChar code) \<noteq> -1 \<and> getNoteIndexFromKey (codeToKeyChar code) \<notin> activeKeys s")
  case True
  then have "getNoteIndexFromKey (codeToKeyChar code) \<in> activeKeys (handleKeyDown p s code)"
    by (simp add: handleKeyDown_fresh)
  then show ?thesis by (rule handleKeyDown_held)
next
  case False
  then have "handleKeyDown p s code = s"
    using handleKeyDown_held handleKeyDown_unmapped by blast
  then show ?thesis by simp
qed

text \<open>
  Claim C1 (keyboard key-repeat idempotence). In every state reached from the initial
  one, a key-down for a bound key whose note is already in \<open>activeKeys\<close> changes nothing:
  no new set entry, no callback, no oscillator. Two key-downs in a row equal one, and
  from a released key they leave exactly one set entry, one \<open>onNoteDown\<close> call and one new
  oscillator.
\<close>

theorem key_repeat_is_noop:
  assumes "run p init evs = Inr s"
    and "idx = getNoteIndexFromKey (codeToKeyChar code)" and "idx \<noteq> -1"
  shows "(idx \<in> activeKeys s \<longrightarrow> handleKeyDown p s code = s) \<and>
         handleKeyDown p (handleKeyDown p s code) code = handleKeyDown p s code \<and>
         (idx \<notin> activeKeys s \<longrightarrow>
            activeKeys (handleKeyDown p (handleKeyDown p s code) code) = insert idx (activeKeys s) \<and>
            calls (handleKeyDown p (handleKeyDown p s code) code) =
              calls s @ (if onNoteDown p then [NoteDown (note (KEYBOARD_NOTE_MAP ! nat idx)) idx] else []) \<and>
            length (heap (synth (handleKeyDown p (handleKeyDown p s code) code))) =
              Suc (length (heap (synth s))))"
proof (intro conjI impI)
  show "handleKeyDown p s code = s" if "idx \<in> activeKeys s"
    using that assms(2) by (simp add: handleKeyDown_held)
  show tw: "handleKeyDown p (handleKeyDown p s code) code = handleKeyDown p s code"
    by (rule handleKeyDown_twice)
  assume fresh: "idx \<notin> activeKeys s"
  have e: "entryAt idx = Some (KEYBOARD_NOTE_MAP ! nat idx)"
    using assms(2,3) getNoteIndexFromKey_entry by simp
  have none: "oscillators (synth s) (note (KEYBOARD_NOTE_MAP ! nat idx)) = None"
    using not_held_no_voice[OF reachable_inv[OF assms(1)] e fresh] .
  note one = handleKeyDown_fresh[OF assms(2,3) fresh, of p]
  show "activeKeys (handleKeyDown p (handleKeyDown p s code) code) = insert idx (activeKeys s)"
    unfolding tw by (simp add: one)
  show "calls (handleKeyDown p (handleKeyDown p s code) code) =
              calls s @ (if onNoteDown p then [NoteDown (note (KEYBOARD_NOTE_MAP ! nat idx)) idx] else [])"
    unfolding tw by (simp add: one)
  show "length (heap (synth (handleKeyDown p (handleKeyDown p s code) code))) =
              Suc (length (heap (synth s)))"
    unfolding tw by (simp add: one play_fresh[OF none])
qed

theorem key_repeat_is_noop_witness:
  "run app_props init [] = Inr init \<and>
   (0::int) = getNoteIndexFromKey (codeToKeyChar ''KeyQ'') \<and> (0::int) \<noteq> -1 \<and>
   0 \<notin> activeKeys init \<and>
   activeKeys (handleKeyDown app_props
      (handleKeyDown app_props init ''KeyQ'') ''KeyQ'') = {0} \<and>
   calls (handleKeyDown app_props
      (handleKeyDown app_props init ''KeyQ'') ''KeyQ'') = [NoteDown ''C4'' 0] \<and>
   length (heap (synth (handleKeyDown app_props
      (handleKeyDown app_props init ''KeyQ'') ''KeyQ''))) = 1"
proof -
  have q: "(0::int) = getNoteIndexFromKey (codeToKeyChar ''KeyQ'')"
    by (simp add: getNoteIndexFromKey_def codeToKeyChar_def startsWith_def toUpperCase_def
        upperChar_def KEYBOARD_NOTE_MAP_def)
  have r: "run app_props init [] = Inr init" by simp
  have n: "0 \<notin> activeKeys init" by (simp add: init_def)
  have m: "note (KEYBOARD_NOTE_MAP ! nat 0) = ''C4''" by (simp add: KEYBOARD_NOTE_MAP_def)
  have h: "heap (synth init) = []" "calls init = []" "activeKeys init = {}" by (simp_all add: init_def)
  have c: "(0::int) \<noteq> -1" by simp
  from key_repeat_is_noop[OF r q c] n
  have "activeKeys (handleKeyDown app_props
          (handleKeyDown app_props init ''KeyQ'') ''KeyQ'') =
          insert 0 (activeKeys init) \<and>
        calls (handleKeyDown app_props
          (handleKeyDown app_props init ''KeyQ'') ''KeyQ'') =
          calls init @ (if onNoteDown app_props
             then [NoteDown (note (KEYBOARD_NOTE_MAP ! nat 0)) 0] else []) \<and>
        length (heap (synth (handleKeyDown app_props
          (handleKeyDown app_props init ''KeyQ'') ''KeyQ''))) =
          Suc (length (heap (synth init)))"
    by blast
  then show ?thesis using q r n m h by (simp add: app_props_def)
qed

subsection \<open>Voices\<close>

lemma filter_at_most_one:
  assumes "\<And>i j. i < length xs \<Longrightarrow> j < length xs \<Longrightarrow> P (xs ! i) \<Longrightarrow> P (xs ! j) \<Longrightarrow> i = j"
  shows "length (filter P xs) \<le> 1"
  using assms
proof (induction xs)
  case Nil
  then show ?case by simp
next
  case (Cons x xs)
  have tl: "\<And>i j. i < length xs \<Longrightarrow> j < length xs \<Longrightarrow> P (xs ! i) \<Longrightarrow> P (xs ! j) \<Longrightarrow> i = j"
  proof -
    fix i j assume "i < length xs" "j < length xs" "P (xs ! i)" "P (xs ! j)"
    then have "Suc i = Suc j" using Cons.prems[of "Suc i" "Suc j"] by simp
    then show "i = j" by simp
  qed
  show ?case
  proof (cases "P x")
    case False
    then show ?thesis using Cons.IH[OF tl] by simp
  next
    case True
    have "filter P xs = []"
    proof (rule ccontr)
      assume "filter P xs \<noteq> []"
      then obtain y where "y \<in> set xs" "P y" by (metis filter_False)
      then obtain k where "k < length xs" "xs ! k = y" by (auto simp: in_set_conv_nth)
      then have "(0::nat) = Suc k" using Cons.prems[of 0 "Suc k"] True \<open>P y\<close> by simp
      then show False by simp
    qed
    then show ?thesis using True by simp
  qed
qed

lemma play_noop:
  assumes "synth_inv sy" "oscillators sy nt \<noteq> None" shows "play sy nt = sy"
proof -
  from assms(2) obtain osc where "oscillators sy nt = Some osc" by auto
  then have "heap sy \<noteq> []" using synth_inv_bound[OF assms(1)] by fastforce
  then have "audioCtx sy" using synth_inv_ctx[OF assms(1)] by simp
  then show ?thesis using assms(2) by (simp add: play_existing getCtx_def)
qed

text \<open>
  Claim C2 (at most one live voice per note). In every state reached from the initial
  one, among all oscillators ever created at most one that is still sounding belongs to a
  given note (the table itself, being keyed by note, has at most one entry per note); and
  \<open>play\<close> on a note that has a table entry returns the synthesizer unchanged: no new
  oscillator, no restart, the same table.
\<close>

theorem one_voice_per_note:
  assumes "run p init evs = Inr s"
  shows "length (filter (\<lambda>node. playing node \<and> onended_note node = nt) (heap (synth s))) \<le> 1 \<and>
         (oscillators (synth s) nt \<noteq> None \<longrightarrow> play (synth s) nt = synth s)"
proof
  have inv: "synth_inv (synth s)" using reachable_inv[OF assms] by (simp add: piano_inv_def)
  show "length (filter (\<lambda>node. playing node \<and> onended_note node = nt) (heap (synth s))) \<le> 1"
  proof (rule filter_at_most_one)
    fix i j
    assume i: "i < length (heap (synth s))" and j: "j < length (heap (synth s))"
      and pi: "playing (heap (synth s) ! i) \<and> onended_note (heap (synth s) ! i) = nt"
      and pj: "playing (heap (synth s) ! j) \<and> onended_note (heap (synth s) ! j) = nt"
    have "oscillators (synth s) nt = Some i" using synth_inv_playing[OF inv i] pi by auto
    moreover have "oscillators (synth s) nt = Some j" using synth_inv_playing[OF inv j] pj by auto
    ultimately show "i = j" by simp
  qed
  show "oscillators (synth s) nt \<noteq> None \<longrightarrow> play (synth s) nt = synth s"
    using play_noop[OF inv] by blast
qed

lemma held_Q_eval:
  "held_Q = \<lparr>activeKeys = {0},
     synth = \<lparr>audioCtx = True, oscillators = [''C4'' \<mapsto> 0],
       heap = [\<lparr>osc_type = ''triangle'', frequency = noteToFrequency ''C4'',
                gain_ramp = [(0, 0), (0.23, 0.01), (0.18, 0.18), (0, 0.55)],
                stop_after = 0.62, onended_note = ''C4'', playing = True\<rparr>]\<rparr>,
     calls = [NoteDown ''C4'' 0]\<rparr>"
  by (simp add: held_Q_def handleKeyDown_def Let_def getNoteIndexFromKey_def codeToKeyChar_def
      startsWith_def toUpperCase_def upperChar_def KEYBOARD_NOTE_MAP_def init_def app_props_def
      play_def getCtx_def)

lemma run_held_Q: "run app_props init [KeyDown ''KeyQ''] = Inr held_Q"
  by (simp add: held_Q_def)

text \<open>The state after pressing Q: one voice for C4, and \<open>play\<close> on C4 changes nothing.\<close>

theorem one_voice_per_note_witness:
  "run app_props init [KeyDown ''KeyQ''] = Inr held_Q \<and>
   length (filter (\<lambda>node. playing node \<and> onended_note node = ''C4'') (heap (synth held_Q))) \<le> 1 \<and>
   oscillators (synth held_Q) ''C4'' \<noteq> None \<and> play (synth held_Q) ''C4'' = synth held_Q"
proof -
  have v: "oscillators (synth held_Q) ''C4'' \<noteq> None" by (simp add: held_Q_eval)
  show ?thesis using one_voice_per_note[OF run_held_Q, of "''C4''"] run_held_Q v by blast
qed

lemma sweep_clears:
  assumes "piano_inv s"
  shows "oscillators (synth (handleGlobalPointerUp s)) = Map.empty"
proof -
  have "dom (oscillators (synth (handleGlobalPointerUp s))) = {}"
    using assms held_notes_registry[of "activeKeys s"]
    by (auto simp: piano_inv_def handleGlobalPointerUp_def dom_sweep simp del: set_map)
  then show ?thesis by simp
qed

text \<open>
  Claim C4 (release-all). In every state reached from the initial one, whatever keys are
  held, \<open>handleGlobalPointerUp\<close> leaves \<open>activeKeys\<close> empty, the voice table empty and no
  oscillator sounding; and \<open>stop\<close> on a note without a voice, as the sweep over the registry
  calls it, returns the synthesizer unchanged (it cannot throw: the only call that can is
  inside the \<open>try\<close>).
\<close>

theorem release_all:
  assumes "run p init evs = Inr s"
  shows "activeKeys (handleGlobalPointerUp s) = {} \<and>
         oscillators (synth (handleGlobalPointerUp s)) = Map.empty \<and>
         filter playing (heap (synth (handleGlobalPointerUp s))) = [] \<and>
         (oscillators sy nt = None \<longrightarrow> stop sy nt = sy)"
proof (intro conjI)
  have inv: "piano_inv s" by (rule reachable_inv[OF assms])
  have inv': "synth_inv (synth (handleGlobalPointerUp s))"
    using piano_inv_handleGlobalPointerUp[OF inv] by (simp add: piano_inv_def)
  show "activeKeys (handleGlobalPointerUp s) = {}" by (simp add: handleGlobalPointerUp_def)
  show e: "oscillators (synth (handleGlobalPointerUp s)) = Map.empty" by (rule sweep_clears[OF inv])
  show "filter playing (heap (synth (handleGlobalPointerUp s))) = []"
  proof (rule ccontr)
    assume "filter playing (heap (synth (handleGlobalPointerUp s))) \<noteq> []"
    then obtain y where "y \<in> set (heap (synth (handleGlobalPointerUp s)))" "playing y"
      by (metis filter_False)
    then obtain k where "k < length (heap (synth (handleGlobalPointerUp s)))"
       "playing (heap (synth (handleGlobalPointerUp s)) ! k)" by (auto simp: in_set_conv_nth)
    then show False using synth_inv_playing[OF inv'] e by simp
  qed
  show "oscillators sy nt = None \<longrightarrow> stop sy nt = sy" by (simp add: stop_absent)
qed

lemma entryAt_3: "entryAt 3 = Some \<lparr>note = ''D#4'', label = ''D#'', key = ''3'', type = black\<rparr>"
  by (simp add: entryAt_def KEYBOARD_NOTE_MAP_def)

lemma entryAt_0: "entryAt 0 = Some \<lparr>note = ''C4'', label = ''C'', key = ''Q'', type = white\<rparr>"
  by (simp add: entryAt_def KEYBOARD_NOTE_MAP_def)

lemma key_Q: "getNoteIndexFromKey (codeToKeyChar ''KeyQ'') = 0"
  by (simp add: getNoteIndexFromKey_def codeToKeyChar_def startsWith_def toUpperCase_def
        upperChar_def KEYBOARD_NOTE_MAP_def)

lemma run_held_Q_Dsharp:
  "run app_props init [KeyDown ''KeyQ'', PointerDown 3] = Inr held_Q_Dsharp"
  by (simp add: held_Q_Dsharp_def held_Q_def handlePointerDown_def entryAt_3)

lemma active_held_Q_Dsharp: "activeKeys held_Q_Dsharp = {3, 0}"
  by (simp add: held_Q_Dsharp_def handlePointerDown_def entryAt_3 held_Q_eval)

text \<open>Two keys held, one by keyboard and one by pointer, then release-all.\<close>

theorem release_all_witness:
  "run app_props init [KeyDown ''KeyQ'', PointerDown 3] = Inr held_Q_Dsharp \<and>
   activeKeys held_Q_Dsharp = {3, 0} \<and>
   activeKeys (handleGlobalPointerUp held_Q_Dsharp) = {} \<and>
   oscillators (synth (handleGlobalPointerUp held_Q_Dsharp)) = Map.empty \<and>
   filter playing (heap (synth (handleGlobalPointerUp held_Q_Dsharp))) = [] \<and>
   oscillators (synth init) ''B4'' = None \<and> stop (synth init) ''B4'' = synth init"
proof -
  have n: "oscillators (synth init) ''B4'' = None" by (simp add: init_def)
  show ?thesis
    using release_all[OF run_held_Q_Dsharp, of "synth init" "''B4''"]
      run_held_Q_Dsharp active_held_Q_Dsharp n by blast
qed

text \<open>
  As stated in the specification (a note-off for a released note invokes no callback) the
  claim fails: in the initial state nothing is held, and a key-up for Q or a pointer
  release on key 0 still calls \<open>onNoteUp\<close> with C4 and index 0.
\<close>

theorem note_off_released_counterexample:
  "getNoteIndexFromKey (codeToKeyChar ''KeyQ'') = 0 \<and> 0 \<notin> activeKeys init \<and>
   calls init = [] \<and>
   calls (handleKeyUp app_props init ''KeyQ'') = [NoteUp ''C4'' 0] \<and>
   map_sum id calls (handlePointerUp app_props init 0) = Inr [NoteUp ''C4'' 0]"
  by (simp add: key_Q handleKeyUp_def handlePointerUp_def entryAt_0 init_def app_props_def
      KEYBOARD_NOTE_MAP_def Let_def)

text \<open>
  Claim C5 (duplicate note-off), as the code has it. In every state reached from the
  initial one, a note-off for a note that is not in \<open>activeKeys\<close> (a key-up for its bound
  key, or a pointer release or pointer-leave on its key) raises nothing and leaves
  \<open>activeKeys\<close> and the synthesizer as they are; the \<open>onNoteUp\<close> callback, when supplied,
  is still invoked with the note and its index.
\<close>

theorem note_off_released:
  assumes "run p init evs = Inr s" and "idx \<notin> activeKeys s" and "entryAt idx = Some e"
  shows "(getNoteIndexFromKey (codeToKeyChar code) = idx \<longrightarrow>
            handleKeyUp p s code =
              s\<lparr>calls := (if onNoteUp p then calls s @ [NoteUp (note e) idx] else calls s)\<rparr>) \<and>
         handlePointerUp p s idx =
           Inr (s\<lparr>calls := (if onNoteUp p then calls s @ [NoteUp (note e) idx] else calls s)\<rparr>)"
proof -
  have v: "oscillators (synth s) (note e) = None"
    using not_held_no_voice[OF reachable_inv[OF assms(1)] assms(3,2)] .
  have a: "activeKeys s - {idx} = activeKeys s" using assms(2) by simp
  have i: "idx \<noteq> -1" "KEYBOARD_NOTE_MAP ! nat idx = e"
    using assms(3) by (auto simp: entryAt_def split: if_splits)
  show ?thesis
    by (auto simp: handleKeyUp_def handlePointerUp_def Let_def assms(3) a i stop_absent[OF v])
qed

text \<open>The initial state, key Q.\<close>

theorem note_off_released_witness:
  "run app_props init [] = Inr init \<and> 0 \<notin> activeKeys init \<and>
   entryAt 0 = Some \<lparr>note = ''C4'', label = ''C'', key = ''Q'', type = white\<rparr> \<and>
   getNoteIndexFromKey (codeToKeyChar ''KeyQ'') = 0 \<and>
   handleKeyUp app_props init ''KeyQ'' = init\<lparr>calls := [NoteUp ''C4'' 0]\<rparr> \<and>
   handlePointerUp app_props init 0 = Inr (init\<lparr>calls := [NoteUp ''C4'' 0]\<rparr>)"
proof -
  have r: "run app_props init [] = Inr init" by simp
  have n: "0 \<notin> activeKeys init" by (simp add: init_def)
  have c: "onNoteUp app_props" "calls init = []"
    by (simp_all add: app_props_def init_def)
  show ?thesis
    using note_off_released[OF r n entryAt_0, of "''KeyQ''"] r n entryAt_0 key_Q c by simp
qed

text \<open>
  For a note that is already held the round trip does not restore the set: with Q held,
  a press and release of the same key, by pointer or by keyboard, leaves the set empty.
\<close>

theorem round_trip_counterexample:
  "activeKeys held_Q = {0} \<and>
   map_sum id activeKeys (run app_props held_Q [PointerDown 0, PointerUp 0]) = Inr {} \<and>
   map_sum id activeKeys (run app_props held_Q [KeyDown ''KeyQ'', KeyUp ''KeyQ'']) = Inr {}"
  by (simp add: held_Q_eval handlePointerDown_def handlePointerUp_def entryAt_0
      handleKeyDown_def handleKeyUp_def key_Q Let_def)

text \<open>
  Claim C6 (round trip), for a note that is not held. For every state and every registry
  index \<open>idx\<close> outside \<open>activeKeys\<close>, note-down followed by note-up for that key, by
  pointer or by keyboard, ends with \<open>activeKeys\<close> equal to the set before the press,
  whatever other notes it holds.
\<close>

theorem round_trip:
  assumes "idx \<notin> activeKeys s" and "entryAt idx = Some e"
  shows "map_sum id activeKeys (run p s [PointerDown idx, PointerUp idx]) = Inr (activeKeys s) \<and>
         (getNoteIndexFromKey (codeToKeyChar code) = idx \<longrightarrow>
            map_sum id activeKeys (run p s [KeyDown code, KeyUp code]) = Inr (activeKeys s))"
proof -
  have i: "idx \<noteq> -1" using assms(2) by (auto simp: entryAt_def split: if_splits)
  have a: "insert idx (activeKeys s) - {idx} = activeKeys s" using assms(1) by simp
  show ?thesis
    using assms(1) i a
    by (auto simp: handlePointerDown_def handlePointerUp_def assms(2)
        handleKeyDown_def handleKeyUp_def Let_def)
qed

text \<open>With Q held, pressing and releasing D# returns to the set that holds just Q.\<close>

theorem round_trip_witness:
  "3 \<notin> activeKeys held_Q \<and>
   entryAt 3 = Some \<lparr>note = ''D#4'', label = ''D#'', key = ''3'', type = black\<rparr> \<and>
   getNoteIndexFromKey (codeToKeyChar ''Digit3'') = 3 \<and>
   activeKeys held_Q = {0} \<and>
   map_sum id activeKeys (run app_props held_Q [PointerDown 3, PointerUp 3]) = Inr {0} \<and>
   map_sum id activeKeys (run app_props held_Q [KeyDown ''Digit3'', KeyUp ''Digit3'']) = Inr {0}"
proof -
  have n: "3 \<notin> activeKeys held_Q" and a: "activeKeys held_Q = {0}" by (simp_all add: held_Q_eval)
  have k: "getNoteIndexFromKey (codeToKeyChar ''Digit3'') = 3"
    by (simp add: getNoteIndexFromKey_def codeToKeyChar_def startsWith_def toUpperCase_def
        upperChar_def KEYBOARD_NOTE_MAP_def)
  show ?thesis
    using round_trip[OF n entryAt_3, of app_props "''Digit3''"] n a k entryAt_3 by simp
qed

lemma expired_Q_eval:
  "expired_Q = \<lparr>activeKeys = {0},
     synth = \<lparr>audioCtx = True, oscillators = Map.empty,
       heap = [\<lparr>osc_type = ''triangle'', frequency = noteToFrequency ''C4'',
                gain_ramp = [(0, 0), (0.23, 0.01), (0.18, 0.18), (0, 0.55)],
                stop_after = 0.62, onended_note = ''C4'', playing = False\<rparr>]\<rparr>,
     calls = [NoteDown ''C4'' 0]\<rparr>"
  by (simp add: expired_Q_def held_Q_eval onended_def silence_def Let_def)

text \<open>
  The call of \<open>play\<close> made by a pointer press on a held key is not always without effect
  on the voices: once the voice of the held note has ended on its own, the press creates
  a second oscillator for the note.
\<close>

theorem pointer_press_held_counterexample:
  "run app_props init [KeyDown ''KeyQ'', Ended 0] = Inr expired_Q \<and>
   0 \<in> activeKeys expired_Q \<and>
   oscillators (synth expired_Q) ''C4'' = None \<and>
   length (heap (synth expired_Q)) = 1 \<and>
   map_sum id (length \<circ> heap \<circ> synth) (handlePointerDown app_props expired_Q 0) = Inr 2 \<and>
   map_sum id (dom \<circ> oscillators \<circ> synth) (handlePointerDown app_props expired_Q 0) = Inr {''C4''}"
proof -
  have "run app_props init [KeyDown ''KeyQ'', Ended 0] = Inr expired_Q"
    by (simp add: expired_Q_def held_Q_def)
  then show ?thesis
    by (simp add: expired_Q_eval handlePointerDown_def entryAt_0 play_def getCtx_def Let_def)
qed

text \<open>
  Claim C9 (pointer asymmetry). For a key whose index is already in \<open>activeKeys\<close>, a
  pointer press leaves \<open>activeKeys\<close> as it is, calls \<open>play\<close>, and invokes \<open>onNoteDown\<close>
  again when it is supplied; \<open>play\<close> leaves table and oscillators alone as long as the note
  still has a table entry. A key-down for the same key is a no-op.
\<close>

theorem pointer_press_held:
  assumes "idx \<in> activeKeys s" and "entryAt idx = Some e"
  shows "handlePointerDown p s idx =
           Inr (s\<lparr>synth := play (synth s) (note e),
                  calls := (if onNoteDown p then calls s @ [NoteDown (note e) idx] else calls s)\<rparr>) \<and>
         (oscillators (synth s) (note e) \<noteq> None \<longrightarrow>
            oscillators (play (synth s) (note e)) = oscillators (synth s) \<and>
            heap (play (synth s) (note e)) = heap (synth s)) \<and>
         (getNoteIndexFromKey (codeToKeyChar code) = idx \<longrightarrow> handleKeyDown p s code = s)"
proof (intro conjI impI)
  have a: "insert idx (activeKeys s) = activeKeys s" using assms(1) by auto
  show "handlePointerDown p s idx =
           Inr (s\<lparr>synth := play (synth s) (note e),
                  calls := (if onNoteDown p then calls s @ [NoteDown (note e) idx] else calls s)\<rparr>)"
    by (simp add: handlePointerDown_def assms(2) a)
  show "oscillators (play (synth s) (note e)) = oscillators (synth s)"
    if "oscillators (synth s) (note e) \<noteq> None"
    using that by (simp add: play_existing getCtx_def)
  show "heap (play (synth s) (note e)) = heap (synth s)"
    if "oscillators (synth s) (note e) \<noteq> None"
    using that by (simp add: play_existing getCtx_def)
  show "handleKeyDown p s code = s" if "getNoteIndexFromKey (codeToKeyChar code) = idx"
    using that assms(1) by (simp add: handleKeyDown_held)
qed

text \<open>With Q held and its voice alive: the pointer press logs a second call, the key-down none.\<close>

theorem pointer_press_held_witness:
  "0 \<in> activeKeys held_Q \<and>
   entryAt 0 = Some \<lparr>note = ''C4'', label = ''C'', key = ''Q'', type = white\<rparr> \<and>
   oscillators (synth held_Q) ''C4'' \<noteq> None \<and>
   getNoteIndexFromKey (codeToKeyChar ''KeyQ'') = 0 \<and>
   handlePointerDown app_props held_Q 0 =
     Inr (held_Q\<lparr>calls := [NoteDown ''C4'' 0, NoteDown ''C4'' 0]\<rparr>) \<and>
   handleKeyDown app_props held_Q ''KeyQ'' = held_Q"
proof -
  have a: "0 \<in> activeKeys held_Q" and v: "oscillators (synth held_Q) ''C4'' \<noteq> None"
    and c: "calls held_Q = [NoteDown ''C4'' 0]"
    by (simp_all add: held_Q_eval)
  have pl: "play (synth held_Q) ''C4'' = synth held_Q"
    by (simp add: held_Q_eval play_def getCtx_def)
  have d: "onNoteDown app_props" by (simp add: app_props_def)
  show ?thesis
    using pointer_press_held[OF a entryAt_0, of app_props "''KeyQ''"] a v c d pl key_Q entryAt_0
    by simp
qed

subsection \<open>Note names\<close>

text \<open>The matcher accepts exactly the strings of the pattern.\<close>

lemma match_note_iff: "match_note s \<noteq> None \<longleftrightarrow> s \<in> pitch_name_pattern"
proof
  assume "match_note s \<noteq> None"
  then show "s \<in> pitch_name_pattern"
  proof (induction s rule: match_note.induct)
    case (1 l d)
    then have "isPitchLetter l" "isDigit d" by (auto split: if_splits)
    then have "[l] @ [] @ [d] \<in> pitch_name_pattern"
      unfolding pitch_name_pattern_def isPitchLetter_def isDigit_def by blast
    then show ?case by simp
  next
    case (2 l h d)
    then have "isPitchLetter l" "isDigit d" "h = CHR ''#''" by (auto split: if_splits)
    then have "[l] @ ''#'' @ [d] \<in> pitch_name_pattern"
      unfolding pitch_name_pattern_def isPitchLetter_def isDigit_def by blast
    then show ?case using \<open>h = CHR ''#''\<close> by simp
  qed simp_all
next
  assume "s \<in> pitch_name_pattern"
  then obtain l h d where s: "s = [l] @ h @ [d]" and l: "l \<in> set ''ABCDEFG''"
    and h: "h = [] \<or> h = ''#''" and d: "d \<in> set ''0123456789''"
    unfolding pitch_name_pattern_def by blast
  from h show "match_note s \<noteq> None"
  proof
    assume "h = []" with s l d show ?thesis by (simp add: isPitchLetter_def isDigit_def)
  next
    assume "h = ''#''" with s l d show ?thesis by (simp add: isPitchLetter_def isDigit_def)
  qed
qed

lemma midi_C4: "noteNameToMidi ''C4'' = 60"
  by (simp add: noteNameToMidi_def isPitchLetter_def isDigit_def parseInt_def indexOf_def notes_def)

text \<open>
  Claim C7 (frequency fallback). A string outside the pattern \<open>[A-G](#)?<digit>\<close> gets the
  MIDI number 60 and therefore the frequency of C4; nothing is raised.
\<close>

theorem unparseable_falls_back_to_C4:
  assumes "nt \<notin> pitch_name_pattern"
  shows "noteNameToMidi nt = 60 \<and> noteToFrequency nt = noteToFrequency ''C4''"
proof -
  have "match_note nt = None" using assms match_note_iff by blast
  then have "noteNameToMidi nt = 60" by (simp add: noteNameToMidi_def)
  then show ?thesis by (simp add: noteToFrequency_def midi_C4)
qed

text \<open>The flat \<open>Bb4\<close> is outside the pattern.\<close>

theorem unparseable_falls_back_to_C4_witness:
  "''Bb4'' \<notin> pitch_name_pattern \<and> noteNameToMidi ''Bb4'' = 60 \<and>
   noteToFrequency ''Bb4'' = noteToFrequency ''C4''"
proof -
  have "match_note ''Bb4'' = None" by (simp add: isPitchLetter_def isDigit_def)
  then have n: "''Bb4'' \<notin> pitch_name_pattern" using match_note_iff by blast
  show ?thesis using unparseable_falls_back_to_C4[OF n] n by simp
qed

text \<open>The value \<open>parseInt\<close> gives to a single decimal digit.\<close>

lemma digit_cases:
  assumes "d \<in> set ''0123456789''"
  shows "d = CHR ''0'' \<or> d = CHR ''1'' \<or> d = CHR ''2'' \<or> d = CHR ''3'' \<or> d = CHR ''4'' \<or>
         d = CHR ''5'' \<or> d = CHR ''6'' \<or> d = CHR ''7'' \<or> d = CHR ''8'' \<or> d = CHR ''9''"
  using assms by (simp only: set_simps insert_iff empty_iff) blast

lemma parseInt_digit_value:
  assumes "d \<in> set ''0123456789''"
  shows "parseInt [d] = int (of_char d) - 48"
  using digit_cases[OF assms]
  by (elim disjE) (simp_all add: parseInt_def indexOf_def)

lemma digit_isDigit: "d \<in> set ''0123456789'' \<Longrightarrow> isDigit d"
  by (simp add: isDigit_def)

text \<open>
  Claim C10 (parser edge). For \<open>E#\<close> or \<open>B#\<close> followed by a decimal digit \<open>d\<close>, whose
  value is its character code minus 48: the string matches the regular expression,
  \<open>indexOf\<close> does not find the pitch class and yields \<open>-1\<close>, and the MIDI number is
  \<open>12 * (d + 1) - 1\<close>, that is 11, 23, ..., 119 for the digits 0 to 9 (59 for \<open>E#4\<close>), not
  the fallback 60. The C of that octave has the number \<open>12 * (d + 1)\<close>. The frequency
  returned is \<open>440 * 2 powr ((12 * (d + 1) - 1 - 69) / 12)\<close>, a semitone (a factor
  \<open>2 powr (1/12)\<close>) below the frequency \<open>440 * 2 powr ((12 * (d + 1) - 69) / 12)\<close> of that C.
\<close>

theorem sharp_without_pitch_class:
  assumes "l = CHR ''E'' \<or> l = CHR ''B''" and "d \<in> set ''0123456789''"
  shows "match_note [l, CHR ''#'', d] = Some ([l, CHR ''#''], [d]) \<and>
         indexOf notes [l, CHR ''#''] = -1 \<and>
         noteNameToMidi [l, CHR ''#'', d] = 12 * ((int (of_char d) - 48) + 1) - 1 \<and>
         noteNameToMidi [CHR ''C'', d] = 12 * ((int (of_char d) - 48) + 1) \<and>
         noteToFrequency [l, CHR ''#'', d] =
           440 * 2 powr ((real_of_int (12 * ((int (of_char d) - 48) + 1) - 1) - 69) / 12) \<and>
         noteToFrequency [CHR ''C'', d] =
           440 * 2 powr ((real_of_int (12 * ((int (of_char d) - 48) + 1)) - 69) / 12) \<and>
         noteToFrequency [l, CHR ''#'', d] * 2 powr (1 / 12) = noteToFrequency [CHR ''C'', d] \<and>
         map (\<lambda>c. noteNameToMidi [CHR ''E'', CHR ''#'', c]) ''0123456789'' =
           [11, 23, 35, 47, 59, 71, 83, 95, 107, 119] \<and>
         map (\<lambda>c. noteNameToMidi [CHR ''B'', CHR ''#'', c]) ''0123456789'' =
           [11, 23, 35, 47, 59, 71, 83, 95, 107, 119]"
proof -
  let ?v = "int (of_char d) - 48"
  have dg: "isDigit d" using assms(2) by (rule digit_isDigit)
  have pv: "parseInt [d] = ?v" using assms(2) by (rule parseInt_digit_value)
  have m: "match_note [l, CHR ''#'', d] = Some ([l, CHR ''#''], [d])"
    using assms(1) dg by (auto simp: isPitchLetter_def)
  have i: "indexOf notes [l, CHR ''#''] = -1"
    using assms(1) by (auto simp: indexOf_def notes_def)
  have e: "noteNameToMidi [l, CHR ''#'', d] = 12 * (?v + 1) - 1"
    by (simp add: noteNameToMidi_def m i pv del: match_note.simps)
  have c: "noteNameToMidi [CHR ''C'', d] = 12 * (?v + 1)"
    using dg by (simp add: noteNameToMidi_def isPitchLetter_def indexOf_def notes_def pv)
  have fe: "noteToFrequency [l, CHR ''#'', d] =
           440 * 2 powr ((real_of_int (12 * (?v + 1) - 1) - 69) / 12)"
    by (simp only: noteToFrequency_def Let_def e)
  have fc: "noteToFrequency [CHR ''C'', d] =
           440 * 2 powr ((real_of_int (12 * (?v + 1)) - 69) / 12)"
    by (simp only: noteToFrequency_def Let_def c)
  have "440 * 2 powr ((real_of_int (12 * (?v + 1) - 1) - 69) / 12) * 2 powr (1 / 12) =
        440 * (2 powr ((real_of_int (12 * (?v + 1) - 1) - 69) / 12) * 2 powr (1 / 12))"
    by simp
  also have "\<dots> = 440 * 2 powr ((real_of_int (12 * (?v + 1) - 1) - 69) / 12 + 1 / 12)"
    by (simp only: powr_add)
  also have "(real_of_int (12 * (?v + 1) - 1) - 69) / 12 + 1 / 12 =
             (real_of_int (12 * (?v + 1)) - 69) / 12"
    by (simp add: field_simps)
  finally have f: "noteToFrequency [l, CHR ''#'', d] * 2 powr (1 / 12) = noteToFrequency [CHR ''C'', d]"
    by (simp only: fe fc)
  have te: "map (\<lambda>c. noteNameToMidi [CHR ''E'', CHR ''#'', c]) ''0123456789'' =
           [11, 23, 35, 47, 59, 71, 83, 95, 107, 119]"
    by (simp add: noteNameToMidi_def isPitchLetter_def isDigit_def parseInt_def indexOf_def notes_def)
  have tb: "map (\<lambda>c. noteNameToMidi [CHR ''B'', CHR ''#'', c]) ''0123456789'' =
           [11, 23, 35, 47, 59, 71, 83, 95, 107, 119]"
    by (simp add: noteNameToMidi_def isPitchLetter_def isDigit_def parseInt_def indexOf_def notes_def)
  show ?thesis by (intro conjI m i e c fe fc f te tb)
qed

text \<open>\<open>E#4\<close>: MIDI number 59 and frequency \<open>440 * 2 powr (-10/12)\<close>, against 60 and
  \<open>440 * 2 powr (-9/12)\<close> for C4.\<close>

theorem sharp_without_pitch_class_witness:
  "(CHR ''E'' = CHR ''E'' \<or> CHR ''E'' = CHR ''B'') \<and> CHR ''4'' \<in> set ''0123456789'' \<and>
   match_note ''E#4'' = Some (''E#'', ''4'') \<and>
   indexOf notes ''E#'' = -1 \<and>
   noteNameToMidi ''E#4'' = 59 \<and> noteNameToMidi ''C4'' = 60 \<and>
   noteToFrequency ''E#4'' = 440 * 2 powr (- 10 / 12) \<and>
   noteToFrequency ''C4'' = 440 * 2 powr (- 9 / 12) \<and>
   noteToFrequency ''E#4'' * 2 powr (1 / 12) = noteToFrequency ''C4''"
proof -
  have a: "CHR ''E'' = CHR ''E'' \<or> CHR ''E'' = CHR ''B''" by simp
  have d: "CHR ''4'' \<in> set ''0123456789''" by simp
  have v: "int (of_char (CHR ''4'')) - 48 = 4" by simp
  note t = sharp_without_pitch_class[OF a d, unfolded v]
  note m = t[THEN conjunct1]
  note t2 = t[THEN conjunct2]
  note i = t2[THEN conjunct1]
  note t3 = t2[THEN conjunct2]
  note e = t3[THEN conjunct1]
  note t4 = t3[THEN conjunct2]
  note c = t4[THEN conjunct1]
  note t5 = t4[THEN conjunct2]
  note fe = t5[THEN conjunct1]
  note t6 = t5[THEN conjunct2]
  note fc = t6[THEN conjunct1]
  note t7 = t6[THEN conjunct2]
  note r = t7[THEN conjunct1]
  have e': "noteNameToMidi ''E#4'' = 59" and c': "noteNameToMidi ''C4'' = 60"
    using e c by simp_all
  have fe': "noteToFrequency ''E#4'' = 440 * 2 powr (- 10 / 12)"
    and fc': "noteToFrequency ''C4'' = 440 * 2 powr (- 9 / 12)"
    using fe fc by simp_all
  show ?thesis
    apply (intro conjI)
            apply (rule a)
           apply (rule d)
          apply (rule m)
         apply (rule i)
        apply (rule e')
       apply (rule c')
      apply (rule fe')
     apply (rule fc')
    apply (rule r)
    done
qed

text \<open>
  Claim C3 (registry). The table has twelve entries; the bound keys are pairwise distinct,
  also after upper-casing; the MIDI numbers of the notes in table order are 60 to 71; the
  frequency of each note is \<open>440 * 2 powr ((midi - 69) / 12)\<close>; and the frequency of A4 is
  exactly 440.
\<close>

theorem registry_keys_and_frequencies:
  "length KEYBOARD_NOTE_MAP = 12 \<and>
   distinct (map key KEYBOARD_NOTE_MAP) \<and>
   distinct (map (toUpperCase \<circ> key) KEYBOARD_NOTE_MAP) \<and>
   map (noteNameToMidi \<circ> note) KEYBOARD_NOTE_MAP = [60, 61, 62, 63, 64, 65, 66, 67, 68, 69, 70, 71] \<and>
   map (noteToFrequency \<circ> note) KEYBOARD_NOTE_MAP =
     map (\<lambda>midi. 440 * 2 powr ((real_of_int midi - 69) / 12)) [60, 61, 62, 63, 64, 65, 66, 67, 68, 69, 70, 71] \<and>
   noteToFrequency ''A4'' = 440"
proof -
  have m: "map (noteNameToMidi \<circ> note) KEYBOARD_NOTE_MAP = [60, 61, 62, 63, 64, 65, 66, 67, 68, 69, 70, 71]"
    by (simp add: KEYBOARD_NOTE_MAP_def noteNameToMidi_def isPitchLetter_def isDigit_def
        parseInt_def indexOf_def notes_def)
  have "map (noteToFrequency \<circ> note) KEYBOARD_NOTE_MAP =
        map (\<lambda>midi. 440 * 2 powr ((real_of_int midi - 69) / 12)) (map (noteNameToMidi \<circ> note) KEYBOARD_NOTE_MAP)"
    by (simp add: noteToFrequency_def comp_def)
  then have f: "map (noteToFrequency \<circ> note) KEYBOARD_NOTE_MAP =
     map (\<lambda>midi. 440 * 2 powr ((real_of_int midi - 69) / 12)) [60, 61, 62, 63, 64, 65, 66, 67, 68, 69, 70, 71]"
    by (simp only: m)
  have a: "noteToFrequency ''A4'' = 440"
    by (simp add: noteToFrequency_def noteNameToMidi_def isPitchLetter_def isDigit_def
        parseInt_def indexOf_def notes_def)
  have l: "length KEYBOARD_NOTE_MAP = 12" by (simp add: KEYBOARD_NOTE_MAP_def)
  have d: "distinct (map key KEYBOARD_NOTE_MAP)" by (simp add: KEYBOARD_NOTE_MAP_def)
  have u: "distinct (map (toUpperCase \<circ> key) KEYBOARD_NOTE_MAP)"
    by (simp add: KEYBOARD_NOTE_MAP_def toUpperCase_def upperChar_def)
  show ?thesis using l d u m f a by blast
qed

subsection \<open>Layout\<close>

lemma length_whiteKeys: "length whiteKeys = 7"
  by (simp add: whiteKeys_def KEYBOARD_NOTE_MAP_def)

lemma white_labels: "map (label \<circ> snd) whiteKeys = [''C'', ''D'', ''E'', ''F'', ''G'', ''A'', ''B'']"
  by (simp add: whiteKeys_def KEYBOARD_NOTE_MAP_def)

lemma black_notes_have_offsets:
  "map note (filter (\<lambda>k. type k = black) KEYBOARD_NOTE_MAP) = map fst blackKeyToWhiteLeftIdx"
  by (simp add: KEYBOARD_NOTE_MAP_def blackKeyToWhiteLeftIdx_def)

lemma offsets_agree_with_table:
  "map (\<lambda>(nt, between, percent). (nt, Some percent)) blackKeyPositions =
   map (\<lambda>(nt, l). (nt, getBlackKeyOffset nt)) blackKeyToWhiteLeftIdx"
  by (simp add: blackKeyPositions_def blackKeyToWhiteLeftIdx_def getBlackKeyOffset_def
      keyWidthPercent_def length_whiteKeys)

lemma black_key_centre_is_left_lane_middle:
  "map_of blackKeyToWhiteLeftIdx nt = Some l \<Longrightarrow>
   blackKeyCentre bw nt = Some ((fst (whiteLane l) + snd (whiteLane l)) / 2)"
  by (simp add: blackKeyCentre_def blackKeyLeft_def getBlackKeyOffset_def whiteLane_def
      keyWidthPercent_def length_whiteKeys field_simps)

text \<open>
  Claim C8 (black-key layout). The white keys are seven equal lanes in pitch order and
  black keys exist exactly on the five pairs of the table. The position, however, is not
  between the two lanes: for C# the offset is \<open>100/14\<close>, the style puts the left edge half
  a black-key width to the left of it, so the key is centred on \<open>100/14\<close>, the middle of
  the C lane, and not on \<open>100/7\<close>, where the lanes of C and D meet.
\<close>

theorem black_key_centre_C_sharp:
  "getBlackKeyOffset ''C#4'' = Some (100 / 14) \<and>
   blackKeyLeft bw ''C#4'' = Some (100 / 14 - bw / 2) \<and>
   blackKeyCentre bw ''C#4'' = Some (100 / 14) \<and>
   whiteLane 0 = (0, 100 / 7) \<and> whiteLane 1 = (100 / 7, 200 / 7) \<and>
   blackKeyCentre bw ''C#4'' \<noteq> Some (snd (whiteLane 0))"
  by (simp add: blackKeyCentre_def blackKeyLeft_def getBlackKeyOffset_def whiteLane_def
      keyWidthPercent_def length_whiteKeys blackKeyToWhiteLeftIdx_def)

end
